theory Spec2Isabelle
  imports Complex_Main "HOL-Library.AList" "HOL-Library.Multiset" "HOL-Library.Char_ord"
    "HOL-Library.List_Lexorder" "HOL-Library.Sublist"
begin

section \<open>Strings\<close>

text \<open>
  Python strings are sequences of code points. They are modelled as \<open>string\<close>, one
  \<open>char\<close> per code point, which covers the code points below 256. The three string
  methods used by the catalogue are \<open>str.strip()\<close> (no argument: whitespace on both
  sides), \<open>str.rstrip("/")\<close> and \<open>str.lower()\<close>.
\<close>

definition isspace :: "char \<Rightarrow> bool" where
  "isspace c = ((of_char c :: nat) \<in> set [9, 10, 11, 12, 13, 28, 29, 30, 31, 32, 133, 160])"

text \<open>
  \<open>str.lower()\<close> below code point 256 adds 32 to \<open>A\<close>..\<open>Z\<close> and to the
  upper-case letters 192..222 other than the multiplication sign 215; in all of them the
  bit of value 32 is clear, so adding 32 is setting that bit.
\<close>

definition lower_char :: "char \<Rightarrow> char" where
  "lower_char c =
     (let n = (of_char c :: nat)
      in if (65 \<le> n \<and> n \<le> 90) \<or> (192 \<le> n \<and> n \<le> 222 \<and> n \<noteq> 215)
         then (case c of Char b0 b1 b2 b3 b4 b5 b6 b7 \<Rightarrow> Char b0 b1 b2 b3 b4 True b6 b7)
         else c)"

definition lower :: "string \<Rightarrow> string" where
  "lower s = map lower_char s"

definition lstrip :: "string \<Rightarrow> string" where
  "lstrip s = dropWhile isspace s"

definition rstrip :: "string \<Rightarrow> string" where
  "rstrip s = rev (dropWhile isspace (rev s))"

definition strip :: "string \<Rightarrow> string" where
  "strip s = rstrip (lstrip s)"

definition rstrip_chars :: "string \<Rightarrow> string \<Rightarrow> string" where
  "rstrip_chars cs s = rev (dropWhile (\<lambda>c. c \<in> set cs) (rev s))"

section \<open>Resource model (models/resource.py)\<close>

datatype SkillDomain =
    ML_BASICS | DEEP_LEARNING | NLP | COMPUTER_VISION | MLOPS | GENERATIVE_AI
  | REINFORCEMENT_LEARNING | DATA_ENGINEERING
  | AI_STRATEGY | AI_ETHICS | AI_PROJECT_MANAGEMENT | AI_ROI | AI_GOVERNANCE

datatype ContentType =
    COURSE | TUTORIAL | DOCUMENTATION | VIDEO_SERIES | BOOK | PAPER | BLOG_SERIES
  | INTERACTIVE_NOTEBOOK | CERTIFICATION_PREP

datatype DifficultyLevel = BEGINNER | INTERMEDIATE | ADVANCED

datatype LicenseType = CC_BY | CC_BY_SA | CC_BY_NC | MIT | APACHE_2 | FREE_ACCESS | UNKNOWN

text \<open>Values of the opaque \<open>raw\<close> / \<open>raw_metadata\<close> dictionaries.\<close>

datatype json = JNull | JBool bool | JInt int | JFloat real | JStr string

text \<open>
  Points in time (\<open>datetime\<close> values with a time zone) are microseconds since the epoch.
\<close>

type_synonym datetime = int

record Resource =
  id :: string
  url :: string
  title :: string
  description :: string
  provider :: string
  domains :: "SkillDomain list"
  content_type :: ContentType
  difficulty :: DifficultyLevel
  license_type :: LicenseType
  language :: string
  estimated_hours :: "real option"
  prerequisites :: "string list"
  tags :: "string list"
  quality_score :: real
  discovered_at :: datetime
  last_verified_at :: "datetime option"
  is_active :: bool
  raw_metadata :: "(string \<times> json) list"

text \<open>
  \<open>_resource_id\<close>, here \<open>url_resource_id\<close>: the first 16 characters of the hexadecimal SHA-256 digest of the
  canonical URL. The digest is \<open>hashlib\<close>'s, not this repository's: it is the parameter
  \<open>sha256_hex\<close>, the map from a string to the hexadecimal digest of its UTF-8 encoding.
\<close>

definition canonical_url :: "string \<Rightarrow> string" where
  "canonical_url u = lower (rstrip_chars ''/'' (strip u))"

definition url_resource_id :: "(string \<Rightarrow> string) \<Rightarrow> string \<Rightarrow> string" where
  "url_resource_id sha256_hex u = take 16 (sha256_hex (canonical_url u))"

definition model_post_init :: "(string \<Rightarrow> string) \<Rightarrow> Resource \<Rightarrow> Resource" where
  "model_post_init sha256_hex r =
     (if id r = [] then r\<lparr>id := url_resource_id sha256_hex (url r)\<rparr> else r)"

text \<open>
  The canonical URL as the specification words it: case-folded, trailing slashes trimmed,
  and nothing else.
\<close>

definition spec_canonical_url :: "string \<Rightarrow> string" where
  "spec_canonical_url u = lower (rstrip_chars ''/'' u)"

section \<open>Catalogue store (storage/repository.py, discovery/catalog.py)\<close>

text \<open>
  The repository keeps the persisted document's \<open>resources\<close> object, the catalogue its
  \<open>_cache\<close> dictionary and its \<open>_loaded\<close> flag. Both dictionaries are association
  lists in insertion order, written with \<open>AList.update\<close>, which replaces the value of a
  present key in place and appends an absent one, as a Python \<open>dict\<close> does. A resource is
  stored as itself: serialising a resource and validating it again is taken to give the
  resource back, and a write to the backing file is taken to succeed.
\<close>

record catalog_state =
  repo :: "(string \<times> Resource) list"
  cache :: "(string \<times> Resource) list"
  loaded :: bool

definition find_all :: "catalog_state \<Rightarrow> Resource list" where
  "find_all s = map snd (repo s)"

definition save :: "Resource \<Rightarrow> catalog_state \<Rightarrow> catalog_state" where
  "save r s = s\<lparr>repo := AList.update (id r) r (repo s)\<rparr>"

definition ensure_loaded :: "catalog_state \<Rightarrow> catalog_state" where
  "ensure_loaded s =
     (if loaded s then s
      else s\<lparr>cache := fold (\<lambda>r c. AList.update (id r) r c) (find_all s) [], loaded := True\<rparr>)"

text \<open>
  \<open>upsert\<close> assigns to the fields of the resource it is given, so the model returns the
  resource as the caller sees it afterwards, between the returned flag and the new state.
\<close>

definition upsert :: "Resource \<Rightarrow> real \<Rightarrow> catalog_state \<Rightarrow> bool \<times> Resource \<times> catalog_state" where
  "upsert resource min_score s =
     (if quality_score resource < min_score then (False, resource, s)
      else
        let s1 = ensure_loaded s
        in case map_of (cache s1) (id resource) of
             None \<Rightarrow>
               (True, resource,
                save resource (s1\<lparr>cache := AList.update (id resource) resource (cache s1)\<rparr>))
           | Some existing \<Rightarrow>
               let r = resource\<lparr>quality_score := max (quality_score resource) (quality_score existing),
                                 discovered_at := discovered_at existing\<rparr>
               in (False, r, save r (s1\<lparr>cache := AList.update (id r) r (cache s1)\<rparr>)))"

text \<open>A sequence of submissions, each with the same threshold, in order.\<close>

fun upsert_seq :: "real \<Rightarrow> Resource list \<Rightarrow> catalog_state \<Rightarrow> catalog_state" where
  "upsert_seq min_score [] s = s"
| "upsert_seq min_score (r # rs) s = upsert_seq min_score rs (snd (snd (upsert r min_score s)))"

definition empty_catalog :: catalog_state where
  "empty_catalog = \<lparr>repo = [], cache = [], loaded = False\<rparr>"

definition sample_resource :: "string \<Rightarrow> real \<Rightarrow> datetime \<Rightarrow> Resource" where
  "sample_resource i q t =
     \<lparr>id = i, url = ''https://example.com/path'', title = ''t'', description = [], provider = [],
      domains = [], content_type = TUTORIAL, difficulty = BEGINNER, license_type = UNKNOWN,
      language = ''en'', estimated_hours = None, prerequisites = [], tags = [],
      quality_score = q, discovered_at = t, last_verified_at = None, is_active = True,
      raw_metadata = []\<rparr>"

definition sample_submissions :: "Resource list" where
  "sample_submissions =
     (let i = url_resource_id (\<lambda>x. x) ''https://example.com/path''
      in [sample_resource i (1/2) 100, sample_resource i (7/10) 200, sample_resource i (2/5) 300])"


section \<open>Learning path builder (curriculum/learning\_path.py)\<close>































section \<open>Text processing (utils/text\_processing.py)\<close>

text \<open>
  \<open>normalise\<close>: lower-case; every character other than \<open>a\<close>..\<open>z\<close>, \<open>0\<close>..\<open>9\<close> and
  whitespace becomes a space; every run of whitespace becomes one space; strip.
\<close>

definition is_lower_alnum :: "char \<Rightarrow> bool" where
  "is_lower_alnum c =
     (let n = (of_char c :: nat) in (97 \<le> n \<and> n \<le> 122) \<or> (48 \<le> n \<and> n \<le> 57))"

definition sub_non_alnum :: "string \<Rightarrow> string" where
  "sub_non_alnum s = map (\<lambda>c. if is_lower_alnum c \<or> isspace c then c else CHR '' '') s"

fun collapse_ws :: "bool \<Rightarrow> string \<Rightarrow> string" where
  "collapse_ws in_run [] = []"
| "collapse_ws in_run (c # cs) =
     (if isspace c then (if in_run then collapse_ws True cs else CHR '' '' # collapse_ws True cs)
      else c # collapse_ws False cs)"

definition normalise :: "string \<Rightarrow> string" where
  "normalise text = strip (collapse_ws False (sub_non_alnum (lower text)))"

definition trigrams :: "string \<Rightarrow> string set" where
  "trigrams text =
     (let t = normalise text
      in if 3 \<le> length t then set (map (\<lambda>i. take 3 (drop i t)) [0 ..< length t - 2]) else {t})"

definition jaccard :: "string set \<Rightarrow> string set \<Rightarrow> real" where
  "jaccard a b =
     (if a = {} \<and> b = {} then 1
      else if card (a \<union> b) \<noteq> 0 then real (card (a \<inter> b)) / real (card (a \<union> b)) else 0)"

section \<open>Deduplicator (ingestion/deduplicator.py)\<close>

record ScrapedContent =
  resource_id :: string
  sc_url :: string
  text_content :: string
  headings :: "string list"
  code_blocks :: "string list"
  links :: "string list"
  content_hash :: string
  word_count :: int
  scraped_at :: datetime

record DuplicateGroup =
  canonical_id :: string
  duplicate_ids :: "string list"
  similarity :: real

text \<open>
  The union-find structure is the dictionary \<open>parent\<close>. \<open>find\<close>, here \<open>uf_find\<close>,
  follows it to a root
  and halves the path on the way; it is a \<open>while\<close> loop, so the model is a partial
  function: \<open>None\<close> stands for a lookup of a missing key and for a loop that does not
  end. It returns the root and the dictionary as the loop leaves it.
\<close>

partial_function (option) uf_find :: "(string \<rightharpoonup> string) \<Rightarrow> string \<Rightarrow> (string \<times> (string \<rightharpoonup> string)) option" where
  "uf_find parent x =
     (case parent x of
        None \<Rightarrow> None
      | Some px \<Rightarrow>
          if px = x then Some (x, parent)
          else (case parent px of
                  None \<Rightarrow> None
                | Some ppx \<Rightarrow> uf_find (parent(x \<mapsto> ppx)) ppx))"

text \<open>\<open>heading_counts.get(r, 0)\<close>.\<close>

definition get_count :: "(string \<times> nat) list \<Rightarrow> string \<Rightarrow> nat" where
  "get_count heading_counts r = (case map_of heading_counts r of None \<Rightarrow> 0 | Some n \<Rightarrow> n)"

definition uf_union ::
  "(string \<times> nat) list \<Rightarrow> (string \<rightharpoonup> string) \<Rightarrow> string \<Rightarrow> string \<Rightarrow> (string \<rightharpoonup> string) option" where
  "uf_union heading_counts parent a b =
     (case uf_find parent a of
        None \<Rightarrow> None
      | Some (ra, parent1) \<Rightarrow>
          (case uf_find parent1 b of
             None \<Rightarrow> None
           | Some (rb, parent2) \<Rightarrow>
               if ra \<noteq> rb
               then (if get_count heading_counts rb \<le> get_count heading_counts ra
                     then Some (parent2(rb \<mapsto> ra))
                     else Some (parent2(ra \<mapsto> rb)))
               else Some parent2))"

text \<open>
  The state of the pair loops: the \<open>parent\<close> dictionary and the \<open>pair_sim\<close> dictionary.
  The inner loop compares \<open>ids[i]\<close>, here \<open>x\<close>, with every later id.
\<close>

type_synonym dedup_state = "(string \<rightharpoonup> string) \<times> (string \<times> string \<rightharpoonup> real)"

fun inner_loop ::
  "real \<Rightarrow> (string \<times> string set) list \<Rightarrow> (string \<times> nat) list \<Rightarrow> string \<Rightarrow> string list
     \<Rightarrow> dedup_state \<Rightarrow> dedup_state option" where
  "inner_loop thr tri_map hc x [] st = Some st"
| "inner_loop thr tri_map hc x (y # ys) (parent, pair_sim) =
     (case (map_of tri_map x, map_of tri_map y) of
        (Some tx, Some ty) \<Rightarrow>
          let sim = jaccard tx ty
          in if thr \<le> sim
             then (case uf_union hc parent x y of
                     None \<Rightarrow> None
                   | Some parent' \<Rightarrow> inner_loop thr tri_map hc x ys (parent', pair_sim((x, y) \<mapsto> sim)))
             else inner_loop thr tri_map hc x ys (parent, pair_sim)
      | _ \<Rightarrow> None)"

fun outer_loop ::
  "real \<Rightarrow> (string \<times> string set) list \<Rightarrow> (string \<times> nat) list \<Rightarrow> string list
     \<Rightarrow> dedup_state \<Rightarrow> dedup_state option" where
  "outer_loop thr tri_map hc [] st = Some st"
| "outer_loop thr tri_map hc (x # xs) st =
     (case inner_loop thr tri_map hc x xs st of
        None \<Rightarrow> None
      | Some st' \<Rightarrow> outer_loop thr tri_map hc xs st')"

text \<open>
  \<open>groups_map.setdefault(root, []).append(rid)\<close> for every id, in order; \<open>find\<close> goes on
  halving paths here.
\<close>

fun group_loop ::
  "string list \<Rightarrow> (string \<rightharpoonup> string) \<Rightarrow> (string \<times> string list) list
     \<Rightarrow> (string \<times> string list) list option" where
  "group_loop [] parent groups_map = Some groups_map"
| "group_loop (rid # rids) parent groups_map =
     (case uf_find parent rid of
        None \<Rightarrow> None
      | Some (rt, parent') \<Rightarrow>
          group_loop rids parent'
            (case map_of groups_map rt of
               None \<Rightarrow> groups_map @ [(rt, [rid])]
             | Some members \<Rightarrow> AList.update rt (members @ [rid]) groups_map))"

text \<open>The sum and the count of the similarities found for a canonical id and its duplicates.\<close>

fun sim_loop :: "(string \<times> string \<rightharpoonup> real) \<Rightarrow> string \<Rightarrow> string list \<Rightarrow> real \<times> nat \<Rightarrow> real \<times> nat" where
  "sim_loop pair_sim canonical [] acc = acc"
| "sim_loop pair_sim canonical (d # ds) (avg_sim, cnt) =
     (case pair_sim (min canonical d, max canonical d) of
        Some s \<Rightarrow> sim_loop pair_sim canonical ds (avg_sim + s, cnt + 1)
      | None \<Rightarrow> sim_loop pair_sim canonical ds (avg_sim, cnt))"

definition make_group :: "(string \<times> string \<rightharpoonup> real) \<Rightarrow> string \<Rightarrow> string list \<Rightarrow> DuplicateGroup" where
  "make_group pair_sim canonical members =
     (let dupes = filter (\<lambda>m. m \<noteq> canonical) members
      in case sim_loop pair_sim canonical dupes (0, 0) of
           (avg_sim, cnt) \<Rightarrow>
             \<lparr>canonical_id = canonical, duplicate_ids = dupes,
              similarity = (if cnt \<noteq> 0 then avg_sim / real cnt else 0)\<rparr>)"

definition find_duplicates :: "real \<Rightarrow> ScrapedContent list \<Rightarrow> DuplicateGroup list option" where
  "find_duplicates threshold contents =
     (if length contents < 2 then Some []
      else
        let tri_map = fold (\<lambda>c m. AList.update (resource_id c) (trigrams (take 5000 (text_content c))) m)
                        contents [];
            heading_counts = fold (\<lambda>c m. AList.update (resource_id c) (length (headings c)) m)
                        contents [];
            ids = map fst tri_map;
            parent = (\<lambda>r. if r \<in> set ids then Some r else None)
        in case outer_loop threshold tri_map heading_counts ids (parent, Map.empty) of
             None \<Rightarrow> None
           | Some (parent', pair_sim) \<Rightarrow>
               (case group_loop ids parent' [] of
                  None \<Rightarrow> None
                | Some groups_map \<Rightarrow>
                    Some (map (\<lambda>(canonical, members). make_group pair_sim canonical members)
                            (filter (\<lambda>(canonical, members). 2 \<le> length members) groups_map))))"

text \<open>
  The similarity that the deduplicator computes for two documents: the Jaccard similarity
  of the trigram sets of the first 5000 characters of each.
\<close>

definition content_similarity :: "ScrapedContent \<Rightarrow> ScrapedContent \<Rightarrow> real" where
  "content_similarity x y =
     jaccard (trigrams (take 5000 (text_content x))) (trigrams (take 5000 (text_content y)))"

definition scraped :: "string \<Rightarrow> string \<Rightarrow> string list \<Rightarrow> ScrapedContent" where
  "scraped rid txt hs =
     \<lparr>resource_id = rid, sc_url = [], text_content = txt, headings = hs, code_blocks = [],
      links = [], content_hash = [], word_count = 0, scraped_at = 0\<rparr>"

definition doc_a :: ScrapedContent where
  "doc_a = scraped ''a1'' ''abcd'' [''Intro'', ''Details'']"

definition doc_b :: ScrapedContent where
  "doc_b = scraped ''b1'' ''ABCD!'' [''Intro'']"

definition doc_c :: ScrapedContent where
  "doc_c = scraped ''c1'' ''Wx-Yz'' []"

definition doc_late :: ScrapedContent where
  "doc_late = scraped ''b'' ''abcd'' []"

definition doc_early :: ScrapedContent where
  "doc_early = scraped ''a'' ''abcd'' []"





section \<open>Taxonomy (models/taxonomy.py)\<close>




section \<open>Discovery agent (discovery/agent.py, discovery/searchers/base.py)\<close>



record SearchResult =
  sr_url :: string
  sr_title :: string
  snippet :: string
  source :: string
  raw :: "(string \<times> json) list"


















text \<open>
  Invariants of the union-find dictionary. \<open>root_at parent x r n\<close>: following
  \<open>parent\<close> from \<open>x\<close> reaches the root \<open>r\<close> in \<open>n\<close> steps. Two ids are joined when they
  have the same root.
\<close>

inductive root_at :: "(string \<rightharpoonup> string) \<Rightarrow> string \<Rightarrow> string \<Rightarrow> nat \<Rightarrow> bool" where
  root: "parent x = Some x \<Longrightarrow> root_at parent x x 0"
| step: "parent x = Some y \<Longrightarrow> y \<noteq> x \<Longrightarrow> root_at parent y r n \<Longrightarrow> root_at parent x r (Suc n)"

definition joined :: "(string \<rightharpoonup> string) \<Rightarrow> string \<Rightarrow> string \<Rightarrow> bool" where
  "joined parent u v = (\<exists>r n m. root_at parent u r n \<and> root_at parent v r m)"

definition uf_le :: "(string \<rightharpoonup> string) \<Rightarrow> (string \<rightharpoonup> string) \<Rightarrow> bool" where
  "uf_le p p' =
     ((\<forall>y r k. root_at p y r k \<longrightarrow> (\<exists>r' k'. root_at p' y r' k'))
      \<and> (\<forall>u v. joined p u v \<longrightarrow> joined p' u v))"

definition same_roots :: "(string \<rightharpoonup> string) \<Rightarrow> (string \<rightharpoonup> string) \<Rightarrow> bool" where
  "same_roots p p' = (\<forall>y r k. root_at p y r k \<longrightarrow> (\<exists>k'. root_at p' y r k'))"

(*PROPERTIES*)
section \<open>Verified properties\<close>

subsection \<open>Catalogue upsert\<close>

lemmas str_defs = canonical_url_def spec_canonical_url_def lower_def rstrip_chars_def strip_def
  lstrip_def rstrip_def isspace_def lower_char_def

lemma filter_key_distinct:
  "distinct (map fst al) \<Longrightarrow> map_of al k = Some v \<Longrightarrow> filter (\<lambda>p. fst p = k) al = [(k, v)]"
proof (induction al)
  case Nil
  then show ?case by simp
next
  case (Cons a al)
  obtain k' v' where a: "a = (k', v')" by (cases a)
  show ?case
  proof (cases "k' = k")
    case True
    with Cons.prems a have "v' = v" and "k \<notin> fst ` set al" by auto
    then have "filter (\<lambda>p. fst p = k) al = []" by (auto simp: filter_empty_conv)
    with True a \<open>v' = v\<close> show ?thesis by simp
  next
    case False
    with Cons a show ?thesis by simp
  qed
qed

lemma distinct_fold_update:
  "distinct (map fst acc) \<Longrightarrow> distinct (map fst (fold (\<lambda>r c. AList.update (id r) r c) rs acc))"
  by (induction rs arbitrary: acc) (simp_all add: distinct_update)

lemma ensure_loaded_distinct:
  "distinct (map fst (cache s)) \<Longrightarrow> distinct (map fst (cache (ensure_loaded s)))"
  by (simp add: ensure_loaded_def distinct_fold_update)

lemma ensure_loaded_loaded [simp]: "loaded (ensure_loaded s)"
  by (simp add: ensure_loaded_def)

lemma ensure_loaded_idem: "loaded s \<Longrightarrow> ensure_loaded s = s"
  by (simp add: ensure_loaded_def)

text \<open>One accepted submission: what the cache holds for the key afterwards.\<close>

lemma upsert_accept:
  assumes "\<not> quality_score r < m"
  shows "loaded (snd (snd (upsert r m s)))"
    and "distinct (map fst (cache s)) \<Longrightarrow> distinct (map fst (cache (snd (snd (upsert r m s)))))"
    and "map_of (cache (ensure_loaded s)) (id r) = None \<Longrightarrow>
           map_of (cache (snd (snd (upsert r m s)))) (id r) = Some r"
    and "map_of (cache (ensure_loaded s)) (id r) = Some e \<Longrightarrow>
           map_of (cache (snd (snd (upsert r m s)))) (id r) =
             Some (r\<lparr>quality_score := max (quality_score r) (quality_score e),
                     discovered_at := discovered_at e\<rparr>)"
  using assms
  by (auto simp: upsert_def Let_def save_def update_conv' distinct_update ensure_loaded_distinct
      split: option.splits)

lemma upsert_seq_merge:
  assumes "loaded s" "distinct (map fst (cache s))" "map_of (cache s) i = Some e"
    and "\<forall>r \<in> set rs. id r = i \<and> m \<le> quality_score r"
  shows "\<exists>e'. map_of (cache (upsert_seq m rs s)) i = Some e'
           \<and> quality_score e' = Max (insert (quality_score e) (quality_score ` set rs))
           \<and> discovered_at e' = discovered_at e
           \<and> distinct (map fst (cache (upsert_seq m rs s)))"
  using assms
proof (induction rs arbitrary: s e)
  case Nil
  then show ?case by simp
next
  case (Cons r rs)
  let ?s = "snd (snd (upsert r m s))"
  let ?e = "r\<lparr>quality_score := max (quality_score r) (quality_score e), discovered_at := discovered_at e\<rparr>"
  from Cons.prems have acc: "\<not> quality_score r < m" and idr: "id r = i" by auto
  have l: "loaded ?s" by (rule upsert_accept(1)[OF acc])
  have d: "distinct (map fst (cache ?s))" by (rule upsert_accept(2)[OF acc Cons.prems(2)])
  have "map_of (cache (ensure_loaded s)) (id r) = Some e"
    using Cons.prems(1,3) idr by (simp add: ensure_loaded_idem)
  from upsert_accept(4)[OF acc this] idr have m: "map_of (cache ?s) i = Some ?e" by simp
  from Cons.prems(4) have rest: "\<forall>r \<in> set rs. id r = i \<and> m \<le> quality_score r" by simp
  from Cons.IH[OF l d m rest] obtain e' where
    e': "map_of (cache (upsert_seq m rs ?s)) i = Some e'"
        "quality_score e' = Max (insert (quality_score ?e) (quality_score ` set rs))"
        "discovered_at e' = discovered_at ?e"
        "distinct (map fst (cache (upsert_seq m rs ?s)))" by blast
  have "Max (insert (max (quality_score r) (quality_score e)) (quality_score ` set rs))
        = Max (insert (quality_score e) (insert (quality_score r) (quality_score ` set rs)))"
  proof (cases "rs = []")
    case True
    then show ?thesis by (simp add: max.commute)
  next
    case False
    then show ?thesis by (simp add: max.commute max.left_commute max.assoc)
  qed
  then have q: "quality_score e' = Max (insert (quality_score e) (quality_score ` set (r # rs)))"
    using e'(2) by simp
  have u: "upsert_seq m (r # rs) s = upsert_seq m rs ?s" by simp
  have dd: "discovered_at e' = discovered_at e" using e'(3) by simp
  show ?case
    unfolding u using e'(1) q dd e'(4) by blast
qed

text \<open>
  C1 (upsert idempotence). Take a catalogue that does not yet hold the id derived from a
  URL, and two or more submissions with that URL and that id, every score at or above the
  threshold. After all of them the cache has exactly one entry under the id; its
  \<open>quality_score\<close> is the maximum of the submitted scores and its \<open>discovered_at\<close>
  is that of the first submission.
\<close>

theorem upsert_idempotent:
  assumes "distinct (map fst (cache s))"
    and "url_resource_id h u \<notin> fst ` set (cache (ensure_loaded s))"
    and "2 \<le> length rs"
    and "\<forall>r \<in> set rs. url r = u \<and> id r = url_resource_id h (url r) \<and> m \<le> quality_score r"
  shows "\<exists>e. filter (\<lambda>p. fst p = url_resource_id h u) (cache (upsert_seq m rs s)) = [(url_resource_id h u, e)]
           \<and> quality_score e = Max (quality_score ` set rs)
           \<and> discovered_at e = discovered_at (hd rs)"
proof -
  let ?i = "url_resource_id h u"
  from assms(3) obtain r rs' where rs: "rs = r # rs'" by (cases rs) auto
  let ?s = "snd (snd (upsert r m s))"
  from assms(4) rs have acc: "\<not> quality_score r < m" and idr: "id r = ?i" by auto
  have none: "map_of (cache (ensure_loaded s)) (id r) = None"
    using assms(2) idr by (simp add: map_of_eq_None_iff)
  have l: "loaded ?s" by (rule upsert_accept(1)[OF acc])
  have d: "distinct (map fst (cache ?s))" by (rule upsert_accept(2)[OF acc assms(1)])
  from upsert_accept(3)[OF acc none] idr have m: "map_of (cache ?s) ?i = Some r" by simp
  from assms(4) rs have rest: "\<forall>r \<in> set rs'. id r = ?i \<and> m \<le> quality_score r" by simp
  from upsert_seq_merge[OF l d m rest] obtain e where
    e: "map_of (cache (upsert_seq m rs' ?s)) ?i = Some e"
       "quality_score e = Max (insert (quality_score r) (quality_score ` set rs'))"
       "discovered_at e = discovered_at r"
       "distinct (map fst (cache (upsert_seq m rs' ?s)))" by blast
  have f: "filter (\<lambda>p. fst p = ?i) (cache (upsert_seq m rs s)) = [(?i, e)]"
    using filter_key_distinct[OF e(4) e(1)] rs by simp
  have q: "quality_score e = Max (quality_score ` set rs)" using e(2) rs by simp
  have dd: "discovered_at e = discovered_at (hd rs)" using e(3) rs by simp
  from f q dd show ?thesis by blast
qed

theorem upsert_idempotent_witness:
  "\<exists>e. filter (\<lambda>p. fst p = url_resource_id (\<lambda>x. x) ''https://example.com/path'')
          (cache (upsert_seq (3/10) sample_submissions empty_catalog))
        = [(url_resource_id (\<lambda>x. x) ''https://example.com/path'', e)]
      \<and> quality_score e = 7/10 \<and> discovered_at e = 100"
proof -
  have 1: "distinct (map fst (cache empty_catalog))"
    by (simp add: empty_catalog_def)
  have 2: "url_resource_id (\<lambda>x. x) ''https://example.com/path''
             \<notin> fst ` set (cache (ensure_loaded empty_catalog))"
    by (simp add: empty_catalog_def ensure_loaded_def find_all_def)
  have 3: "2 \<le> length sample_submissions"
    by (simp add: sample_submissions_def Let_def)
  have 4: "\<forall>r \<in> set sample_submissions. url r = ''https://example.com/path''
             \<and> id r = url_resource_id (\<lambda>x. x) (url r) \<and> 3/10 \<le> quality_score r"
    by (simp add: sample_submissions_def sample_resource_def Let_def)
  have 5: "Max (quality_score ` set sample_submissions) = 7/10"
    by (simp add: sample_submissions_def sample_resource_def Let_def)
  have 6: "discovered_at (hd sample_submissions) = 100"
    by (simp add: sample_submissions_def sample_resource_def Let_def)
  from upsert_idempotent[OF 1 2 3 4] show ?thesis
    unfolding 5 6 .
qed

text \<open>
  C2 (return value of upsert), as the claim states it, fails: a second submission of an
  accepted resource is merged and the call returns False although the score is at or
  above the threshold.
\<close>

theorem upsert_returns_accepted_counterexample:
  "\<not> quality_score (sample_resource ''a'' (1/2) 100) < 3/10
   \<and> fst (upsert (sample_resource ''a'' (1/2) 100) (3/10)
            (snd (snd (upsert (sample_resource ''a'' (1/2) 100) (3/10) empty_catalog)))) = False"
  by (simp add: upsert_def ensure_loaded_def find_all_def save_def empty_catalog_def
      sample_resource_def Let_def)

text \<open>
  C2 as amended: the flag returned by upsert is true exactly when the resource is at or
  above the threshold and its id is not yet in the catalogue. A resource below the
  threshold is dropped with the catalogue unchanged (False). A resource at or above the
  threshold is stored, in the cache and in the repository, under its id: as it is when
  the id is new, and merged with the existing record otherwise (the higher of the two
  scores, the existing record's \<open>discovered_at\<close>), in which case the call returns
  False; the entries under other ids stay as they are.
\<close>

theorem upsert_returns_is_new:
  "fst (upsert r m s) = (m \<le> quality_score r \<and> id r \<notin> fst ` set (cache (ensure_loaded s)))
   \<and> (quality_score r < m \<longrightarrow> snd (snd (upsert r m s)) = s)
   \<and> (m \<le> quality_score r \<longrightarrow>
        (let stored = (case map_of (cache (ensure_loaded s)) (id r) of
                         None \<Rightarrow> r
                       | Some e \<Rightarrow> r\<lparr>quality_score := max (quality_score r) (quality_score e),
                                       discovered_at := discovered_at e\<rparr>);
             s' = snd (snd (upsert r m s))
         in fst (snd (upsert r m s)) = stored
            \<and> map_of (cache s') (id r) = Some stored
            \<and> map_of (repo s') (id r) = Some stored
            \<and> (\<forall>k. k \<noteq> id r \<longrightarrow> map_of (cache s') k = map_of (cache (ensure_loaded s)) k)))"
proof (cases "map_of (cache (ensure_loaded s)) (id r)")
  case None
  then have "id r \<notin> fst ` set (cache (ensure_loaded s))"
    by (simp add: map_of_eq_None_iff)
  with None show ?thesis
    by (simp add: upsert_def Let_def save_def dom_update update_conv')
next
  case (Some e)
  then have "id r \<in> fst ` set (cache (ensure_loaded s))"
    by (metis map_of_eq_None_iff option.distinct(1))
  with Some show ?thesis
    by (simp add: upsert_def Let_def save_def dom_update update_conv')
qed

theorem upsert_returns_is_new_witness:
  "fst (upsert (sample_resource ''a'' (1/2) 100) (3/10) empty_catalog) = True
   \<and> fst (upsert (sample_resource ''a'' (1/5) 100) (3/10) empty_catalog) = False
   \<and> snd (snd (upsert (sample_resource ''a'' (1/5) 100) (3/10) empty_catalog)) = empty_catalog
   \<and> map_of (cache (snd (snd (upsert (sample_resource ''a'' (1/2) 100) (3/10) empty_catalog)))) ''a''
       = Some (sample_resource ''a'' (1/2) 100)
   \<and> fst (upsert (sample_resource ''a'' (2/5) 200) (3/10)
          (snd (snd (upsert (sample_resource ''a'' (1/2) 100) (3/10) empty_catalog)))) = False
   \<and> (\<exists>e. map_of (cache (snd (snd (upsert (sample_resource ''a'' (2/5) 200) (3/10)
               (snd (snd (upsert (sample_resource ''a'' (1/2) 100) (3/10) empty_catalog))))))) ''a''
             = Some e
          \<and> map_of (repo (snd (snd (upsert (sample_resource ''a'' (2/5) 200) (3/10)
               (snd (snd (upsert (sample_resource ''a'' (1/2) 100) (3/10) empty_catalog))))))) ''a''
             = Some e
          \<and> quality_score e = 1/2 \<and> discovered_at e = 100)"
proof -
  let ?r1 = "sample_resource ''a'' (1/2) 100" and ?r2 = "sample_resource ''a'' (2/5) 200"
  let ?s1 = "snd (snd (upsert ?r1 (3/10) empty_catalog))"
  let ?s2 = "snd (snd (upsert ?r2 (3/10) ?s1))"
  let ?st = "?r2\<lparr>quality_score := max (quality_score ?r2) (quality_score ?r1),
                   discovered_at := discovered_at ?r1\<rparr>"
  have e: "cache (ensure_loaded empty_catalog) = []"
    by (simp add: empty_catalog_def ensure_loaded_def find_all_def)
  have i: "id ?r1 = ''a''" "id ?r2 = ''a''" "quality_score ?r1 = 1/2" "quality_score ?r2 = 2/5"
    "id (sample_resource ''a'' (1/5) 100) = ''a''" "quality_score (sample_resource ''a'' (1/5) 100) = 1/5"
    by (simp_all add: sample_resource_def)
  have a: "fst (upsert ?r1 (3/10) empty_catalog) = True \<and> map_of (cache ?s1) ''a'' = Some ?r1"
    using upsert_returns_is_new[of ?r1 "3/10" empty_catalog]
    by (simp add: e i Let_def)
  have b: "fst (upsert (sample_resource ''a'' (1/5) 100) (3/10) empty_catalog) = False
      \<and> snd (snd (upsert (sample_resource ''a'' (1/5) 100) (3/10) empty_catalog)) = empty_catalog"
    using upsert_returns_is_new[of "sample_resource ''a'' (1/5) 100" "3/10" empty_catalog]
    by (simp add: e i)
  have l: "ensure_loaded ?s1 = ?s1"
    by (simp add: upsert_def i Let_def save_def ensure_loaded_def split: option.splits)
  have st: "map_of (cache (ensure_loaded ?s1)) (id ?r2) = Some ?r1"
    using a by (simp only: l i)
  have acc: "(3/10 :: real) \<le> quality_score ?r2"
    by (simp add: i)
  have mem: "id ?r2 \<in> fst ` set (cache (ensure_loaded ?s1))"
    using st by (metis map_of_eq_None_iff option.distinct(1))
  from upsert_returns_is_new[of ?r2 "3/10" ?s1] acc mem
  have c1: "fst (upsert ?r2 (3/10) ?s1) = False"
    by blast
  from upsert_returns_is_new[of ?r2 "3/10" ?s1] acc
  have "map_of (cache ?s2) (id ?r2) = Some ?st \<and> map_of (repo ?s2) (id ?r2) = Some ?st"
    by (simp only: st Let_def option.case)
  then have c2: "map_of (cache ?s2) ''a'' = Some ?st \<and> map_of (repo ?s2) ''a'' = Some ?st"
    by (simp only: i)
  have c3: "quality_score ?st = 1/2 \<and> discovered_at ?st = 100"
    by (simp add: sample_resource_def)
  from a b c1 c2 c3 show ?thesis by blast
qed

subsection \<open>Resource identity\<close>

text \<open>
  C3 (identity from the canonical URL), as the claim states it, fails. The two strings
  below are equal after case-folding and trimming trailing slashes, but the code strips
  surrounding whitespace before it trims the slashes, so the strings it digests differ in
  length, and so do the ids under every digest that tells the two digested strings apart
  (here the identity function stands for it).
\<close>

theorem resource_id_spec_canonical_counterexample:
  "spec_canonical_url ''x/ /'' = spec_canonical_url ''x/ ''
   \<and> canonical_url ''x/ /'' = ''x/ '' \<and> canonical_url ''x/ '' = ''x''
   \<and> url_resource_id (\<lambda>s. s) ''x/ /'' \<noteq> url_resource_id (\<lambda>s. s) ''x/ ''"
  by (simp add: url_resource_id_def str_defs)

text \<open>
  C3 as amended: the id is a function of the canonical URL that the code computes, which
  is the URL with surrounding whitespace stripped, then trailing slashes trimmed, then
  lower-cased. Two URLs with the same such canonical form have the same id, whether the
  id is computed directly or set when a resource without an id is constructed; for URLs
  without surrounding whitespace, being equal after case-folding and trimming trailing
  slashes is enough; and the two URLs of the specification's example have the same id.
\<close>

theorem resource_id_canonical:
  "(canonical_url u1 = canonical_url u2 \<longrightarrow> url_resource_id h u1 = url_resource_id h u2)
   \<and> (strip u1 = u1 \<and> strip u2 = u2 \<and> spec_canonical_url u1 = spec_canonical_url u2
        \<longrightarrow> url_resource_id h u1 = url_resource_id h u2)
   \<and> (id r1 = [] \<and> id r2 = [] \<and> canonical_url (url r1) = canonical_url (url r2)
        \<longrightarrow> id (model_post_init h r1) = id (model_post_init h r2))
   \<and> url_resource_id h ''https://EXAMPLE.com/Path/'' = url_resource_id h ''https://example.com/path''"
proof -
  have ex: "canonical_url ''https://EXAMPLE.com/Path/'' = canonical_url ''https://example.com/path''"
    by (simp add: str_defs)
  have sp: "strip u = u \<Longrightarrow> canonical_url u = spec_canonical_url u" for u
    by (simp add: canonical_url_def spec_canonical_url_def)
  show ?thesis
    using ex sp by (simp add: url_resource_id_def model_post_init_def)
qed

theorem resource_id_canonical_witness:
  "url_resource_id (\<lambda>s. s) ''HTTP://A.org/B//'' = url_resource_id (\<lambda>s. s) '' http://a.ORG/b ''
   \<and> url_resource_id (\<lambda>s. s) ''HTTP://A.org/B//'' = url_resource_id (\<lambda>s. s) ''http://a.ORG/b''
   \<and> id (model_post_init (\<lambda>s. s) ((sample_resource [] 0 0)\<lparr>url := ''HTTP://A.org/B//''\<rparr>))
     = id (model_post_init (\<lambda>s. s) ((sample_resource [] 0 0)\<lparr>url := '' http://a.ORG/b ''\<rparr>))"
proof -
  have 1: "canonical_url ''HTTP://A.org/B//'' = canonical_url '' http://a.ORG/b ''"
    by (simp add: str_defs)
  have 2: "strip ''HTTP://A.org/B//'' = ''HTTP://A.org/B//'' \<and> strip ''http://a.ORG/b'' = ''http://a.ORG/b''
           \<and> spec_canonical_url ''HTTP://A.org/B//'' = spec_canonical_url ''http://a.ORG/b''"
    by (simp add: str_defs)
  have 3: "id ((sample_resource [] 0 0)\<lparr>url := ''HTTP://A.org/B//''\<rparr>) = []
           \<and> id ((sample_resource [] 0 0)\<lparr>url := '' http://a.ORG/b ''\<rparr>) = []"
    by (simp add: sample_resource_def)
  show ?thesis
    using 1 2 3
      resource_id_canonical[of "''HTTP://A.org/B//''" "'' http://a.ORG/b ''" "\<lambda>s. s"
        "(sample_resource [] 0 0)\<lparr>url := ''HTTP://A.org/B//''\<rparr>"
        "(sample_resource [] 0 0)\<lparr>url := '' http://a.ORG/b ''\<rparr>"]
      resource_id_canonical[of "''HTTP://A.org/B//''" "''http://a.ORG/b''" "\<lambda>s. s"]
    by simp
qed



subsection \<open>Provider diversity\<close>











subsection \<open>Beginner hour cap\<close>












subsection \<open>Deduplication\<close>

lemma uf_find_root: "parent x = Some x \<Longrightarrow> uf_find parent x = Some (x, parent)"
  by (subst uf_find.simps) simp

lemma uf_find_child:
  "parent x = Some px \<Longrightarrow> px \<noteq> x \<Longrightarrow> parent px = Some px
     \<Longrightarrow> uf_find parent x = Some (px, parent(x \<mapsto> px))"
  by (subst uf_find.simps) (simp add: uf_find_root)

lemma uf_union_roots:
  "parent a = Some a \<Longrightarrow> parent b = Some b \<Longrightarrow> a \<noteq> b \<Longrightarrow>
   uf_union hc parent a b =
     Some (if get_count hc b \<le> get_count hc a then parent(b \<mapsto> a) else parent(a \<mapsto> b))"
  by (simp add: uf_union_def uf_find_root)

text \<open>Two documents with different ids and a similarity at or above the threshold.\<close>

lemma find_duplicates_pair:
  assumes ne: "resource_id A \<noteq> resource_id B"
    and sim: "thr \<le> content_similarity A B"
  shows "find_duplicates thr [A, B] =
     Some [\<lparr>canonical_id = (if length (headings B) \<le> length (headings A)
                             then resource_id A else resource_id B),
            duplicate_ids = [if length (headings B) \<le> length (headings A)
                             then resource_id B else resource_id A],
            similarity = (if resource_id A < resource_id B then content_similarity A B else 0)\<rparr>]"
proof -
  let ?a = "resource_id A" and ?b = "resource_id B"
  let ?tA = "trigrams (take 5000 (text_content A))" and ?tB = "trigrams (take 5000 (text_content B))"
  let ?tm = "[(?a, ?tA), (?b, ?tB)]"
  let ?hc = "[(?a, length (headings A)), (?b, length (headings B))]"
  let ?p0 = "\<lambda>r. if r = ?a \<or> r = ?b then Some r else None"
  let ?H = "length (headings B) \<le> length (headings A)"
  let ?p1 = "if ?H then ?p0(?b \<mapsto> ?a) else ?p0(?a \<mapsto> ?b)"
  let ?ps = "[(?a, ?b) \<mapsto> content_similarity A B]"
  have tm: "fold (\<lambda>c m. AList.update (resource_id c) (trigrams (take 5000 (text_content c))) m) [A, B] [] = ?tm"
    using ne by simp
  have hc: "fold (\<lambda>c m. AList.update (resource_id c) (length (headings c)) m) [A, B] [] = ?hc"
    using ne by simp
  have gc: "get_count ?hc ?a = length (headings A)" "get_count ?hc ?b = length (headings B)"
    using ne by (simp_all add: get_count_def)
  have un: "uf_union ?hc ?p0 ?a ?b = Some ?p1"
    using ne by (subst uf_union_roots) (simp_all add: gc)
  have out: "outer_loop thr ?tm ?hc [?a, ?b] (?p0, Map.empty) = Some (?p1, ?ps)"
    using ne sim un by (simp add: content_similarity_def Let_def)
  have grp: "group_loop [?a, ?b] ?p1 [] =
      Some (if ?H then [(?a, [?a, ?b])] else [(?b, [?a, ?b])])"
  proof (cases ?H)
    case True
    have 1: "uf_find (?p0(?b \<mapsto> ?a)) ?a = Some (?a, ?p0(?b \<mapsto> ?a))"
      using ne by (intro uf_find_root) simp
    have 2: "uf_find (?p0(?b \<mapsto> ?a)) ?b = Some (?a, (?p0(?b \<mapsto> ?a))(?b \<mapsto> ?a))"
      using ne by (intro uf_find_child) simp_all
    show ?thesis using True ne by (simp add: 1 2)
  next
    case False
    have 1: "uf_find (?p0(?a \<mapsto> ?b)) ?a = Some (?b, (?p0(?a \<mapsto> ?b))(?a \<mapsto> ?b))"
      using ne by (intro uf_find_child) simp_all
    have 2: "uf_find (?p0(?a \<mapsto> ?b)) ?b = Some (?b, ?p0(?a \<mapsto> ?b))"
      using ne by (intro uf_find_root) simp
    show ?thesis using False ne by (simp add: 1 2)
  qed
  have len: "(length [A, B] < 2) = False"
    by simp
  have ids: "map fst ?tm = [?a, ?b]"
    by simp
  have par: "(\<lambda>r. if r \<in> set [?a, ?b] then Some r else None) = ?p0"
    by auto
  have "find_duplicates thr [A, B] =
      Some (map (\<lambda>(canonical, members). make_group ?ps canonical members)
             (filter (\<lambda>(canonical, members). 2 \<le> length members)
                (if ?H then [(?a, [?a, ?b])] else [(?b, [?a, ?b])])))"
    by (simp only: find_duplicates_def Let_def len if_False tm hc ids par out option.case
        prod.case grp)
  also have "\<dots> = Some [make_group ?ps (if ?H then ?a else ?b) [?a, ?b]]"
    by simp
  also have "make_group ?ps (if ?H then ?a else ?b) [?a, ?b]
      = \<lparr>canonical_id = (if ?H then ?a else ?b), duplicate_ids = [if ?H then ?b else ?a],
         similarity = (if ?a < ?b then content_similarity A B else 0)\<rparr>"
    using ne by (auto simp: make_group_def Let_def min_def max_def)
  finally show ?thesis .
qed

text \<open>
  C4 (dedup correctness). For three documents A, B, C with different resource ids, A and
  B similar at or above the threshold and C below the threshold with each of them,
  \<open>find_duplicates [A, B, C]\<close> returns exactly one group. Its members are A and B; its
  canonical member is the one with more headings (A when they have equally many); C is in
  no group.
\<close>

theorem find_duplicates_three:
  assumes ab: "resource_id A \<noteq> resource_id B"
    and ac: "resource_id A \<noteq> resource_id C"
    and bc: "resource_id B \<noteq> resource_id C"
    and sab: "thr \<le> content_similarity A B"
    and sac: "content_similarity A C < thr"
    and sbc: "content_similarity B C < thr"
  shows "\<exists>s. find_duplicates thr [A, B, C] =
     Some [\<lparr>canonical_id = (if length (headings B) \<le> length (headings A)
                             then resource_id A else resource_id B),
            duplicate_ids = [if length (headings B) \<le> length (headings A)
                             then resource_id B else resource_id A],
            similarity = s\<rparr>]"
proof -
  let ?a = "resource_id A" and ?b = "resource_id B" and ?c = "resource_id C"
  let ?tA = "trigrams (take 5000 (text_content A))" and ?tB = "trigrams (take 5000 (text_content B))"
  let ?tC = "trigrams (take 5000 (text_content C))"
  let ?tm = "[(?a, ?tA), (?b, ?tB), (?c, ?tC)]"
  let ?hc = "[(?a, length (headings A)), (?b, length (headings B)), (?c, length (headings C))]"
  let ?p0 = "\<lambda>r. if r = ?a \<or> r = ?b \<or> r = ?c then Some r else None"
  let ?H = "length (headings B) \<le> length (headings A)"
  let ?p1 = "if ?H then ?p0(?b \<mapsto> ?a) else ?p0(?a \<mapsto> ?b)"
  let ?ps = "[(?a, ?b) \<mapsto> content_similarity A B]"
  have tm: "fold (\<lambda>c m. AList.update (resource_id c) (trigrams (take 5000 (text_content c))) m) [A, B, C] [] = ?tm"
    using ab ac bc by simp
  have hc: "fold (\<lambda>c m. AList.update (resource_id c) (length (headings c)) m) [A, B, C] [] = ?hc"
    using ab ac bc by simp
  have gc: "get_count ?hc ?a = length (headings A)" "get_count ?hc ?b = length (headings B)"
    using ab ac bc by (simp_all add: get_count_def)
  have un: "uf_union ?hc ?p0 ?a ?b = Some ?p1"
    using ab by (subst uf_union_roots) (simp_all add: gc)
  have in1: "inner_loop thr ?tm ?hc ?a [?b, ?c] (?p0, Map.empty) = Some (?p1, ?ps)"
    using ab ac bc sab sac un by (simp add: content_similarity_def Let_def)
  have in2: "inner_loop thr ?tm ?hc ?b [?c] (?p1, ?ps) = Some (?p1, ?ps)"
    using ab ac bc sbc by (simp add: content_similarity_def Let_def)
  have out: "outer_loop thr ?tm ?hc [?a, ?b, ?c] (?p0, Map.empty) = Some (?p1, ?ps)"
    by (simp only: outer_loop.simps in1 in2 inner_loop.simps(1) option.case)
  have grp: "group_loop [?a, ?b, ?c] ?p1 [] =
      Some (if ?H then [(?a, [?a, ?b]), (?c, [?c])] else [(?b, [?a, ?b]), (?c, [?c])])"
  proof (cases ?H)
    case True
    have 1: "uf_find (?p0(?b \<mapsto> ?a)) ?a = Some (?a, ?p0(?b \<mapsto> ?a))"
      using ab by (intro uf_find_root) simp
    have 2: "uf_find (?p0(?b \<mapsto> ?a)) ?b = Some (?a, ?p0(?b \<mapsto> ?a))"
      using uf_find_child[of "?p0(?b \<mapsto> ?a)" ?b ?a] ab by simp
    have 3: "uf_find (?p0(?b \<mapsto> ?a)) ?c = Some (?c, ?p0(?b \<mapsto> ?a))"
      using bc by (intro uf_find_root) simp
    show ?thesis using True ab ac bc by (simp add: 1 2 3)
  next
    case False
    have 1: "uf_find (?p0(?a \<mapsto> ?b)) ?a = Some (?b, ?p0(?a \<mapsto> ?b))"
      using uf_find_child[of "?p0(?a \<mapsto> ?b)" ?a ?b] ab by simp
    have 2: "uf_find (?p0(?a \<mapsto> ?b)) ?b = Some (?b, ?p0(?a \<mapsto> ?b))"
      using ab by (intro uf_find_root) simp
    have 3: "uf_find (?p0(?a \<mapsto> ?b)) ?c = Some (?c, ?p0(?a \<mapsto> ?b))"
      using ac by (intro uf_find_root) simp
    show ?thesis using False ab ac bc by (simp add: 1 2 3)
  qed
  have len: "(length [A, B, C] < 2) = False"
    by simp
  have ids: "map fst ?tm = [?a, ?b, ?c]"
    by simp
  have par: "(\<lambda>r. if r \<in> set [?a, ?b, ?c] then Some r else None) = ?p0"
    by auto
  have "find_duplicates thr [A, B, C] =
      Some (map (\<lambda>(canonical, members). make_group ?ps canonical members)
             (filter (\<lambda>(canonical, members). 2 \<le> length members)
                (if ?H then [(?a, [?a, ?b]), (?c, [?c])] else [(?b, [?a, ?b]), (?c, [?c])])))"
    by (simp only: find_duplicates_def Let_def len if_False tm hc ids par out option.case
        prod.case grp)
  also have "\<dots> = Some [make_group ?ps (if ?H then ?a else ?b) [?a, ?b]]"
    by simp
  also have "make_group ?ps (if ?H then ?a else ?b) [?a, ?b]
      = \<lparr>canonical_id = (if ?H then ?a else ?b), duplicate_ids = [if ?H then ?b else ?a],
         similarity = (if ?a < ?b then content_similarity A B else 0)\<rparr>"
    using ab by (auto simp: make_group_def Let_def min_def max_def)
  finally show ?thesis by blast
qed

lemmas norm_defs = trigrams_def normalise_def sub_non_alnum_def is_lower_alnum_def str_defs

lemma doc_trigrams:
  "trigrams (take 5000 (text_content doc_a)) = {''abc'', ''bcd''}"
  "trigrams (take 5000 (text_content doc_b)) = {''abc'', ''bcd''}"
  "trigrams (take 5000 (text_content doc_c)) = {''wx '', ''x y'', '' yz''}"
  by (simp_all add: doc_a_def doc_b_def doc_c_def scraped_def norm_defs Let_def upt_rec)

theorem find_duplicates_three_witness:
  "content_similarity doc_a doc_b = 1 \<and> content_similarity doc_a doc_c = 0
   \<and> content_similarity doc_b doc_c = 0
   \<and> (\<exists>s. find_duplicates (17/20) [doc_a, doc_b, doc_c] =
          Some [\<lparr>canonical_id = ''a1'', duplicate_ids = [''b1''], similarity = s\<rparr>])"
proof -
  have 1: "content_similarity doc_a doc_b = 1"
    by (simp add: content_similarity_def doc_trigrams jaccard_def)
  have 2: "content_similarity doc_a doc_c = 0"
    by (simp add: content_similarity_def doc_trigrams jaccard_def)
  have 3: "content_similarity doc_b doc_c = 0"
    by (simp add: content_similarity_def doc_trigrams jaccard_def)
  have ids: "resource_id doc_a = ''a1''" "resource_id doc_b = ''b1''" "resource_id doc_c = ''c1''"
    by (simp_all add: doc_a_def doc_b_def doc_c_def scraped_def)
  have hs: "length (headings doc_b) \<le> length (headings doc_a)"
    by (simp add: doc_a_def doc_b_def scraped_def)
  have "\<exists>s. find_duplicates (17/20) [doc_a, doc_b, doc_c] =
     Some [\<lparr>canonical_id = (if length (headings doc_b) \<le> length (headings doc_a)
                             then resource_id doc_a else resource_id doc_b),
            duplicate_ids = [if length (headings doc_b) \<le> length (headings doc_a)
                             then resource_id doc_b else resource_id doc_a],
            similarity = s\<rparr>]"
    by (rule find_duplicates_three) (simp_all add: ids 1 2 3)
  then have "\<exists>s. find_duplicates (17/20) [doc_a, doc_b, doc_c] =
          Some [\<lparr>canonical_id = ''a1'', duplicate_ids = [''b1''], similarity = s\<rparr>]"
    by (simp only: hs if_True ids)
  with 1 2 3 show ?thesis by blast
qed

text \<open>
  C5 (similarity of a group). The code stores the similarity of a pair under the key
  \<open>(ids[i], ids[j])\<close>, in input order, and reads it back under the key
  \<open>(min(canonical, d), max(canonical, d))\<close>, in lexicographic order. Two documents with
  the same text, the one with id \<open>b\<close> given before the one with id \<open>a\<close>, have
  similarity 1 and form one group, whose similarity the code reports as 0.
\<close>

theorem group_similarity_input_order:
  "content_similarity doc_late doc_early = 1
   \<and> find_duplicates (17/20) [doc_late, doc_early] =
       Some [\<lparr>canonical_id = ''b'', duplicate_ids = [''a''], similarity = 0\<rparr>]
   \<and> find_duplicates (17/20) [doc_early, doc_late] =
       Some [\<lparr>canonical_id = ''a'', duplicate_ids = [''b''], similarity = 1\<rparr>]"
proof -
  have t: "trigrams (take 5000 (text_content doc_late)) = {''abc'', ''bcd''}"
    "trigrams (take 5000 (text_content doc_early)) = {''abc'', ''bcd''}"
    by (simp_all add: doc_late_def doc_early_def scraped_def norm_defs Let_def upt_rec)
  have 1: "content_similarity doc_late doc_early = 1" "content_similarity doc_early doc_late = 1"
    by (simp_all add: content_similarity_def t jaccard_def)
  have f: "resource_id doc_late = ''b''" "resource_id doc_early = ''a''"
    "headings doc_late = []" "headings doc_early = []"
    by (simp_all add: doc_late_def doc_early_def scraped_def)
  have 2: "find_duplicates (17/20) [doc_late, doc_early] =
       Some [\<lparr>canonical_id = ''b'', duplicate_ids = [''a''], similarity = 0\<rparr>]"
    by (subst find_duplicates_pair) (simp_all add: f 1)
  have 3: "find_duplicates (17/20) [doc_early, doc_late] =
       Some [\<lparr>canonical_id = ''a'', duplicate_ids = [''b''], similarity = 1\<rparr>]"
    by (subst find_duplicates_pair) (simp_all add: f 1)
  from 1 2 3 show ?thesis by simp
qed

subsection \<open>Documents without content\<close>













subsection \<open>Searcher failure isolation\<close>











subsection \<open>Union-find\<close>

lemma root_at_det:
  "root_at p x r n \<Longrightarrow> root_at p x r' n' \<Longrightarrow> r = r' \<and> n = n'"
proof (induction arbitrary: r' n' rule: root_at.induct)
  case (root parent x)
  from root.prems root.hyps show ?case
    by (cases rule: root_at.cases) auto
next
  case (step parent x y r n)
  from step.prems step.hyps(1,2) obtain k where "root_at parent y r' k" "n' = Suc k"
    by (cases rule: root_at.cases) auto
  with step.IH show ?case by auto
qed

lemma root_at_is_root: "root_at p x r n \<Longrightarrow> p r = Some r"
  by (induction rule: root_at.induct) auto

lemma root_at_defined: "root_at p x r n \<Longrightarrow> \<exists>y. p x = Some y"
  by (cases rule: root_at.cases) auto

lemma root_at_avoid:
  "root_at p z r m \<Longrightarrow> root_at p x rx n \<Longrightarrow> m < n \<Longrightarrow> root_at (p(x \<mapsto> w)) z r m"
proof (induction rule: root_at.induct)
  case (root parent z)
  have "z \<noteq> x"
  proof
    assume "z = x"
    with root have "root_at parent x x 0" by (simp add: root_at.root)
    from root_at_det[OF this root.prems(1)] root.prems(2) show False by simp
  qed
  with root.hyps show ?case by (simp add: root_at.root)
next
  case (step parent z y r m)
  have "z \<noteq> x"
  proof
    assume "z = x"
    with step.hyps have "root_at parent x r (Suc m)" by (simp add: root_at.step)
    from root_at_det[OF this step.prems(1)] step.prems(2) show False by simp
  qed
  moreover have "m < n"
    using step.prems(2) by simp
  then have "root_at (parent(x \<mapsto> w)) y r m"
    by (rule step.IH[OF step.prems(1)])
  moreover have "(parent(x \<mapsto> w)) z = Some y"
    using \<open>z \<noteq> x\<close> step.hyps(1) by simp
  ultimately show ?case
    using step.hyps(2) by (blast intro: root_at.step)
qed

lemma halve_same_roots:
  assumes x: "p x = Some px" "px \<noteq> x" and px: "p px = Some ppx"
  shows "same_roots p (p(x \<mapsto> ppx))"
  unfolding same_roots_def
proof (intro allI impI)
  fix y r k
  assume "root_at p y r k"
  then show "\<exists>k'. root_at (p(x \<mapsto> ppx)) y r k'"
    using x px
  proof (induction rule: root_at.induct)
    case (root parent y)
    then have "y \<noteq> x" by auto
    with root.hyps have "(parent(x \<mapsto> ppx)) y = Some y" by simp
    then show ?case by (blast intro: root_at.root)
  next
    case (step parent y y' r k)
    show ?case
    proof (cases "y = x")
      case False
      from step.IH[OF step.prems] obtain k' where "root_at (parent(x \<mapsto> ppx)) y' r k'" by blast
      moreover from False step.hyps(1) have "(parent(x \<mapsto> ppx)) y = Some y'" by simp
      ultimately show ?thesis using step.hyps(2) by (blast intro: root_at.step)
    next
      case True
      with step.hyps(1) step.prems(1) have y': "y' = px" by simp
      have dx: "root_at parent x r (Suc k)"
        using True step.hyps by (auto intro: root_at.step)
      from step.hyps(3) y' have "root_at parent px r k" by simp
      then obtain m where m: "root_at parent ppx r m" "m \<le> k"
      proof (cases rule: root_at.cases)
        case root
        with step.prems(3) have "ppx = px" by simp
        with root that show ?thesis by (auto intro: root_at.root)
      next
        case (step z n)
        with \<open>parent px = Some ppx\<close> have "z = ppx" by simp
        with step that show ?thesis by auto
      qed
      have lt: "m < Suc k" using m(2) by simp
      have a: "root_at (parent(x \<mapsto> ppx)) ppx r m"
        by (rule root_at_avoid[OF m(1) dx lt])
      have "ppx \<noteq> x"
      proof
        assume "ppx = x"
        with m(1) have "root_at parent x r m" by simp
        from root_at_det[OF this dx] lt show False by simp
      qed
      moreover have "(parent(x \<mapsto> ppx)) x = Some ppx" by simp
      ultimately have "root_at (parent(x \<mapsto> ppx)) x r (Suc m)"
        using a by (blast intro: root_at.step)
      with True show ?thesis by blast
    qed
  qed
qed

lemma same_roots_refl: "same_roots p p"
  by (auto simp: same_roots_def)

lemma same_roots_trans: "same_roots p p' \<Longrightarrow> same_roots p' p'' \<Longrightarrow> same_roots p p''"
  unfolding same_roots_def by blast

text \<open>\<open>find\<close> returns the root and keeps every id's root.\<close>

lemma uf_find_correct:
  "root_at p x r n \<Longrightarrow> \<exists>p'. uf_find p x = Some (r, p') \<and> same_roots p p'"
proof (induction n arbitrary: p x rule: less_induct)
  case (less n)
  from less.prems show ?case
  proof (cases rule: root_at.cases)
    case root
    then show ?thesis
      using uf_find_root[of p x] same_roots_refl by auto
  next
    case (step px k)
    from root_at_defined[OF step(4)] obtain ppx where ppx: "p px = Some ppx" by blast
    let ?p1 = "p(x \<mapsto> ppx)"
    have f: "uf_find p x = uf_find ?p1 ppx"
      using step(2,3) ppx by (subst uf_find.simps) simp
    from step(4) obtain m where m: "root_at p ppx r m" "m \<le> k"
    proof (cases rule: root_at.cases)
      case root
      with ppx have "ppx = px" by simp
      with root that show ?thesis by (auto intro: root_at.root)
    next
      case (step z j)
      with ppx have "z = ppx" by simp
      with step that show ?thesis by auto
    qed
    have lt: "m < n" using m(2) step(1) by simp
    have "root_at ?p1 ppx r m"
      by (rule root_at_avoid[OF m(1) less.prems lt])
    from less.IH[OF lt this] obtain p' where p': "uf_find ?p1 ppx = Some (r, p')" "same_roots ?p1 p'"
      by blast
    have h: "same_roots p ?p1"
      by (rule halve_same_roots[OF step(2,3) ppx])
    have "same_roots p p'"
      by (rule same_roots_trans[OF h p'(2)])
    with f p'(1) show ?thesis by simp
  qed
qed

lemma same_roots_uf_le: "same_roots p p' \<Longrightarrow> uf_le p p'"
  unfolding same_roots_def uf_le_def joined_def by blast

lemma uf_le_refl: "uf_le p p"
  by (simp add: uf_le_def)

lemma uf_le_trans: "uf_le p p' \<Longrightarrow> uf_le p' p'' \<Longrightarrow> uf_le p p''"
  unfolding uf_le_def by blast

lemma joined_sym: "joined p u v \<Longrightarrow> joined p v u"
  unfolding joined_def by blast

text \<open>Linking the root \<open>rb\<close> under the root \<open>ra\<close>.\<close>

lemma link_roots:
  assumes y: "root_at p y r k" and ra: "p ra = Some ra" and rb: "p rb = Some rb" and ne: "ra \<noteq> rb"
  shows "\<exists>k'. root_at (p(rb \<mapsto> ra)) y (if r = rb then ra else r) k'"
  using y ra rb ne
proof (induction rule: root_at.induct)
  case (root parent y)
  show ?case
  proof (cases "y = rb")
    case True
    have "(parent(rb \<mapsto> ra)) ra = Some ra"
      using root.prems by simp
    then have "root_at (parent(rb \<mapsto> ra)) ra ra 0"
      by (rule root_at.root)
    moreover have "(parent(rb \<mapsto> ra)) rb = Some ra" by simp
    ultimately have "root_at (parent(rb \<mapsto> ra)) rb ra (Suc 0)"
      using root.prems(3) by (blast intro: root_at.step)
    then have "\<exists>k'. root_at (parent(rb \<mapsto> ra)) rb ra k'"
      by blast
    then show ?thesis
      by (simp only: True HOL.simp_thms if_True)
  next
    case False
    with root.hyps have "(parent(rb \<mapsto> ra)) y = Some y" by simp
    then have "\<exists>k'. root_at (parent(rb \<mapsto> ra)) y y k'"
      by (blast intro: root_at.root)
    then show ?thesis
      by (simp only: False if_False)
  qed
next
  case (step parent y y' r k)
  from step.hyps(1,2) step.prems(2) have "y \<noteq> rb" by auto
  with step.hyps(1) have "(parent(rb \<mapsto> ra)) y = Some y'" by simp
  moreover from step.IH[OF step.prems]
  obtain k' where "root_at (parent(rb \<mapsto> ra)) y' (if r = rb then ra else r) k'"
    by blast
  ultimately show ?case using step.hyps(2) by (blast intro: root_at.step)
qed

lemma link_uf_le:
  assumes ra: "p ra = Some ra" and rb: "p rb = Some rb" and ne: "ra \<noteq> rb"
  shows "uf_le p (p(rb \<mapsto> ra))"
  unfolding uf_le_def joined_def
  using link_roots[OF _ ra rb ne] by blast

lemma uf_union_correct:
  assumes a: "root_at p a ra n" and b: "root_at p b rb m"
  shows "\<exists>p'. uf_union hc p a b = Some p' \<and> uf_le p p' \<and> joined p' a b"
proof -
  from uf_find_correct[OF a] obtain p1 where p1: "uf_find p a = Some (ra, p1)" "same_roots p p1"
    by blast
  from p1(2) b obtain m1 where b1: "root_at p1 b rb m1"
    unfolding same_roots_def by blast
  from uf_find_correct[OF b1] obtain p2 where p2: "uf_find p1 b = Some (rb, p2)" "same_roots p1 p2"
    by blast
  have s: "same_roots p p2"
    by (rule same_roots_trans[OF p1(2) p2(2)])
  from s a obtain n2 where a2: "root_at p2 a ra n2"
    unfolding same_roots_def by blast
  from s b obtain m2 where b2: "root_at p2 b rb m2"
    unfolding same_roots_def by blast
  have le: "uf_le p p2"
    by (rule same_roots_uf_le[OF s])
  have ra: "p2 ra = Some ra" by (rule root_at_is_root[OF a2])
  have rb: "p2 rb = Some rb" by (rule root_at_is_root[OF b2])
  show ?thesis
  proof (cases "ra = rb")
    case True
    then have "uf_union hc p a b = Some p2"
      by (simp add: uf_union_def p1(1) p2(1))
    moreover have "joined p2 a b"
      using a2 b2 True unfolding joined_def by blast
    ultimately show ?thesis using le by blast
  next
    case False
    show ?thesis
    proof (cases "get_count hc rb \<le> get_count hc ra")
      case True
      have u: "uf_union hc p a b = Some (p2(rb \<mapsto> ra))"
        using False True by (simp add: uf_union_def p1(1) p2(1))
      from link_roots[OF a2 ra rb False] False obtain ka where "root_at (p2(rb \<mapsto> ra)) a ra ka"
        by auto
      moreover from link_roots[OF b2 ra rb False] obtain kb where "root_at (p2(rb \<mapsto> ra)) b ra kb"
        by auto
      ultimately have "joined (p2(rb \<mapsto> ra)) a b"
        unfolding joined_def by blast
      moreover have "uf_le p (p2(rb \<mapsto> ra))"
        by (rule uf_le_trans[OF le link_uf_le[OF ra rb False]])
      ultimately show ?thesis using u by blast
    next
      case c: False
      have ne: "rb \<noteq> ra" using False by simp
      have u: "uf_union hc p a b = Some (p2(ra \<mapsto> rb))"
        using False c by (simp add: uf_union_def p1(1) p2(1))
      from link_roots[OF a2 rb ra ne] obtain ka where "root_at (p2(ra \<mapsto> rb)) a rb ka"
        by auto
      moreover from link_roots[OF b2 rb ra ne] ne obtain kb where "root_at (p2(ra \<mapsto> rb)) b rb kb"
        by auto
      ultimately have "joined (p2(ra \<mapsto> rb)) a b"
        unfolding joined_def by blast
      moreover have "uf_le p (p2(ra \<mapsto> rb))"
        by (rule uf_le_trans[OF le link_uf_le[OF rb ra ne]])
      ultimately show ?thesis using u by blast
    qed
  qed
qed

lemma inner_loop_correct:
  assumes "map_of tm x = Some tx"
    and "\<forall>y \<in> set ys. \<exists>ty. map_of tm y = Some ty"
    and "\<exists>r k. root_at p x r k"
    and "\<forall>y \<in> set ys. \<exists>r k. root_at p y r k"
  shows "\<exists>p' ps'. inner_loop thr tm hc x ys (p, ps) = Some (p', ps') \<and> uf_le p p'
           \<and> (\<forall>y \<in> set ys. \<forall>ty. map_of tm y = Some ty \<longrightarrow> thr \<le> jaccard tx ty \<longrightarrow> joined p' x y)"
  using assms
proof (induction ys arbitrary: p ps)
  case Nil
  then show ?case by (simp add: uf_le_refl)
next
  case (Cons y ys)
  from Cons.prems(2) obtain ty where ty: "map_of tm y = Some ty" by auto
  have tys: "\<forall>y \<in> set ys. \<exists>ty. map_of tm y = Some ty" using Cons.prems(2) by simp
  show ?case
  proof (cases "thr \<le> jaccard tx ty")
    case True
    from Cons.prems(3) obtain rx kx where rx: "root_at p x rx kx" by blast
    from Cons.prems(4) obtain ry ky where ry: "root_at p y ry ky" by auto
    from uf_union_correct[OF rx ry, of hc] obtain p1 where
      p1: "uf_union hc p x y = Some p1" "uf_le p p1" "joined p1 x y" by blast
    have dx: "\<exists>r k. root_at p1 x r k"
      using p1(2) rx unfolding uf_le_def by blast
    have dys: "\<forall>y \<in> set ys. \<exists>r k. root_at p1 y r k"
      using p1(2) Cons.prems(4) unfolding uf_le_def by (metis list.set_intros(2))
    from Cons.IH[OF Cons.prems(1) tys dx dys, of "ps((x, y) \<mapsto> jaccard tx ty)"]
    obtain p' ps' where r:
      "inner_loop thr tm hc x ys (p1, ps((x, y) \<mapsto> jaccard tx ty)) = Some (p', ps')"
      "uf_le p1 p'"
      "\<forall>y \<in> set ys. \<forall>ty. map_of tm y = Some ty \<longrightarrow> thr \<le> jaccard tx ty \<longrightarrow> joined p' x y"
      by blast
    have e: "inner_loop thr tm hc x (y # ys) (p, ps) = Some (p', ps')"
      using True r(1) by (simp add: Cons.prems(1) ty p1(1) Let_def)
    have j: "joined p' x y"
      using p1(3) r(2) unfolding uf_le_def by blast
    have le: "uf_le p p'"
      by (rule uf_le_trans[OF p1(2) r(2)])
    from e le j r(3) show ?thesis by auto
  next
    case False
    have dys: "\<forall>y \<in> set ys. \<exists>r k. root_at p y r k"
      using Cons.prems(4) by simp
    from Cons.IH[OF Cons.prems(1) tys Cons.prems(3) dys, of ps]
    obtain p' ps' where r:
      "inner_loop thr tm hc x ys (p, ps) = Some (p', ps')"
      "uf_le p p'"
      "\<forall>y \<in> set ys. \<forall>ty. map_of tm y = Some ty \<longrightarrow> thr \<le> jaccard tx ty \<longrightarrow> joined p' x y"
      by blast
    have e: "inner_loop thr tm hc x (y # ys) (p, ps) = Some (p', ps')"
      using False r(1) by (simp add: Cons.prems(1) ty Let_def)
    from e r(2,3) False ty show ?thesis by auto
  qed
qed

lemma outer_loop_correct:
  assumes "\<forall>x \<in> set xs. \<exists>t. map_of tm x = Some t"
    and "\<forall>x \<in> set xs. \<exists>r k. root_at p x r k"
  shows "\<exists>p' ps'. outer_loop thr tm hc xs (p, ps) = Some (p', ps') \<and> uf_le p p'
           \<and> (\<forall>x \<in> set xs. \<forall>y \<in> set xs. \<forall>tx ty.
                 map_of tm x = Some tx \<longrightarrow> map_of tm y = Some ty \<longrightarrow> x \<noteq> y \<longrightarrow>
                 thr \<le> jaccard tx ty \<longrightarrow> thr \<le> jaccard ty tx \<longrightarrow> joined p' x y)"
  using assms
proof (induction xs arbitrary: p ps)
  case Nil
  then show ?case by (simp add: uf_le_refl)
next
  case (Cons a xs)
  from Cons.prems(1) obtain ta where ta: "map_of tm a = Some ta" by auto
  have ts: "\<forall>x \<in> set xs. \<exists>t. map_of tm x = Some t" using Cons.prems(1) by simp
  have da: "\<exists>r k. root_at p a r k" using Cons.prems(2) by simp
  have ds: "\<forall>x \<in> set xs. \<exists>r k. root_at p x r k" using Cons.prems(2) by simp
  from inner_loop_correct[OF ta ts da ds, of thr hc ps] obtain p1 ps1 where i:
    "inner_loop thr tm hc a xs (p, ps) = Some (p1, ps1)" "uf_le p p1"
    "\<forall>y \<in> set xs. \<forall>ty. map_of tm y = Some ty \<longrightarrow> thr \<le> jaccard ta ty \<longrightarrow> joined p1 a y"
    by blast
  have ds1: "\<forall>x \<in> set xs. \<exists>r k. root_at p1 x r k"
    using i(2) ds unfolding uf_le_def by blast
  from Cons.IH[OF ts ds1, of ps1] obtain p' ps' where r:
    "outer_loop thr tm hc xs (p1, ps1) = Some (p', ps')" "uf_le p1 p'"
    "\<forall>x \<in> set xs. \<forall>y \<in> set xs. \<forall>tx ty.
        map_of tm x = Some tx \<longrightarrow> map_of tm y = Some ty \<longrightarrow> x \<noteq> y \<longrightarrow>
        thr \<le> jaccard tx ty \<longrightarrow> thr \<le> jaccard ty tx \<longrightarrow> joined p' x y"
    by blast
  have e: "outer_loop thr tm hc (a # xs) (p, ps) = Some (p', ps')"
    by (simp add: i(1) r(1))
  have le: "uf_le p p'"
    by (rule uf_le_trans[OF i(2) r(2)])
  have fromA: "joined p' a y"
    if "y \<in> set xs" "map_of tm y = Some ty" "thr \<le> jaccard ta ty" for y ty
  proof -
    from i(3) that have "joined p1 a y" by blast
    with r(2) show ?thesis unfolding uf_le_def by blast
  qed
  have "joined p' x y"
    if "x \<in> set (a # xs)" "y \<in> set (a # xs)" "map_of tm x = Some tx" "map_of tm y = Some ty"
      "x \<noteq> y" "thr \<le> jaccard tx ty" "thr \<le> jaccard ty tx" for x y tx ty
  proof (cases "x = a")
    case True
    with that ta have "y \<in> set xs" "tx = ta" by auto
    with fromA[of y ty] that True show ?thesis by simp
  next
    case xa: False
    show ?thesis
    proof (cases "y = a")
      case True
      with that ta xa have "x \<in> set xs" "ty = ta" by auto
      with fromA[of x tx] that True have "joined p' a x" by simp
      with True show ?thesis by (simp add: joined_sym)
    next
      case False
      with xa that r(3) show ?thesis by auto
    qed
  qed
  with e le show ?case by blast
qed

lemma fold_update_keys:
  "fst ` set (fold (\<lambda>c m. AList.update (kf c) (vf c) m) cs acc) = kf ` set cs \<union> fst ` set acc"
  by (induction cs arbitrary: acc) (simp_all add: dom_update)

lemma fold_update_keep:
  assumes "\<forall>c \<in> set cs. kf c = key \<longrightarrow> vf c = val" and "map_of acc key = Some val"
  shows "map_of (fold (\<lambda>c m. AList.update (kf c) (vf c) m) cs acc) key = Some val"
  using assms
proof (induction cs arbitrary: acc)
  case Nil
  then show ?case by simp
next
  case (Cons c cs)
  have 1: "\<forall>c \<in> set cs. kf c = key \<longrightarrow> vf c = val"
    using Cons.prems(1) by simp
  have 2: "map_of (AList.update (kf c) (vf c) acc) key = Some val"
  proof (cases "kf c = key")
    case True
    with Cons.prems(1) have "vf c = val" by simp
    with True show ?thesis by (simp add: update_conv')
  next
    case False
    with Cons.prems(2) show ?thesis by (simp add: update_conv')
  qed
  from Cons.IH[OF 1 2] show ?case by simp
qed

lemma fold_update_lookup:
  assumes "x \<in> set cs" and "\<forall>c \<in> set cs. kf c = kf x \<longrightarrow> vf c = vf x"
  shows "map_of (fold (\<lambda>c m. AList.update (kf c) (vf c) m) cs acc) (kf x) = Some (vf x)"
  using assms
proof (induction cs arbitrary: acc)
  case Nil
  then show ?case by simp
next
  case (Cons c cs)
  have 1: "\<forall>c \<in> set cs. kf c = kf x \<longrightarrow> vf c = vf x"
    using Cons.prems(2) by simp
  show ?case
  proof (cases "x \<in> set cs")
    case True
    from Cons.IH[OF True 1] show ?thesis by simp
  next
    case False
    with Cons.prems(1) have xc: "x = c" by simp
    have 2: "map_of (AList.update (kf c) (vf c) acc) (kf x) = Some (vf x)"
      by (simp add: xc update_conv')
    from fold_update_keep[OF 1 2] show ?thesis by simp
  qed
qed

lemma two_elements_length:
  assumes "x \<in> set xs" "y \<in> set xs" "x \<noteq> y"
  shows "2 \<le> length xs"
proof -
  have "card {x, y} \<le> card (set xs)"
    using assms(1,2) by (intro card_mono) simp_all
  also have "\<dots> \<le> length xs" by (rule card_length)
  finally show ?thesis using assms(3) by simp
qed

lemma group_loop_correct:
  assumes "\<forall>x \<in> set rids. \<exists>r k. root_at p x r k"
  shows "\<exists>gm'. group_loop rids p gm = Some gm'
           \<and> (\<forall>c ms. map_of gm c = Some ms \<longrightarrow> (\<exists>ms'. map_of gm' c = Some ms' \<and> set ms \<subseteq> set ms'))
           \<and> (\<forall>x \<in> set rids. \<forall>r k. root_at p x r k \<longrightarrow> (\<exists>ms'. map_of gm' r = Some ms' \<and> x \<in> set ms'))"
  using assms
proof (induction rids arbitrary: p gm)
  case Nil
  then show ?case by simp
next
  case (Cons rid rids)
  from Cons.prems obtain r k where rk: "root_at p rid r k" by auto
  from uf_find_correct[OF rk] obtain p1 where p1: "uf_find p rid = Some (r, p1)" "same_roots p p1"
    by blast
  let ?gm1 = "case map_of gm r of None \<Rightarrow> gm @ [(r, [rid])]
              | Some members \<Rightarrow> AList.update r (members @ [rid]) gm"
  have g1r: "\<exists>ms. map_of ?gm1 r = Some ms \<and> rid \<in> set ms"
    by (cases "map_of gm r") (simp_all add: update_conv' map_add_def)
  have g1m: "\<exists>ms'. map_of ?gm1 c = Some ms' \<and> set ms \<subseteq> set ms'" if "map_of gm c = Some ms" for c ms
  proof (cases "map_of gm r")
    case None
    with that show ?thesis by (simp add: map_add_def)
  next
    case (Some members)
    show ?thesis
    proof (cases "c = r")
      case True
      with that Some show ?thesis by (simp add: update_conv' subset_insertI)
    next
      case False
      with that Some show ?thesis by (simp add: update_conv')
    qed
  qed
  have d1: "\<forall>x \<in> set rids. \<exists>r k. root_at p1 x r k"
  proof
    fix x assume "x \<in> set rids"
    with Cons.prems obtain r0 k0 where "root_at p x r0 k0" by auto
    with p1(2) show "\<exists>r k. root_at p1 x r k" unfolding same_roots_def by blast
  qed
  from Cons.IH[OF d1, of ?gm1] obtain gm' where gm':
    "group_loop rids p1 ?gm1 = Some gm'"
    "\<forall>c ms. map_of ?gm1 c = Some ms \<longrightarrow> (\<exists>ms'. map_of gm' c = Some ms' \<and> set ms \<subseteq> set ms')"
    "\<forall>x \<in> set rids. \<forall>r k. root_at p1 x r k \<longrightarrow> (\<exists>ms'. map_of gm' r = Some ms' \<and> x \<in> set ms')"
    by blast
  have e: "group_loop (rid # rids) p gm = Some gm'"
    by (simp add: p1(1) gm'(1))
  have mono: "\<exists>ms'. map_of gm' c = Some ms' \<and> set ms \<subseteq> set ms'" if "map_of gm c = Some ms" for c ms
  proof -
    from g1m[OF that] obtain ms1 where "map_of ?gm1 c = Some ms1" "set ms \<subseteq> set ms1" by blast
    moreover from gm'(2) \<open>map_of ?gm1 c = Some ms1\<close>
    obtain ms' where "map_of gm' c = Some ms'" "set ms1 \<subseteq> set ms'" by blast
    ultimately show ?thesis by blast
  qed
  have mem: "\<exists>ms'. map_of gm' r' = Some ms' \<and> x \<in> set ms'"
    if "x \<in> set (rid # rids)" "root_at p x r' k'" for x r' k'
  proof (cases "x = rid")
    case True
    with that(2) rk have "r' = r" using root_at_det by blast
    from g1r obtain ms where "map_of ?gm1 r = Some ms" "rid \<in> set ms" by blast
    with gm'(2) obtain ms' where "map_of gm' r = Some ms'" "set ms \<subseteq> set ms'" by blast
    with \<open>rid \<in> set ms\<close> True \<open>r' = r\<close> show ?thesis by auto
  next
    case False
    with that(1) have "x \<in> set rids" by simp
    moreover from that(2) p1(2) obtain k1 where "root_at p1 x r' k1"
      unfolding same_roots_def by blast
    ultimately show ?thesis using gm'(3) by blast
  qed
  from e mono mem show ?case by blast
qed

(*MORE*)

end
